theory Spec2Isabelle
  imports Main "HOL-Library.Sublist" "HOL-Library.AList" "HOL-Library.Product_Lexorder"
begin

section \<open>The gallery's filename parser and grouping engine\<close>

text \<open>
  The development embeds the pure core of \<^verbatim>\<open>gallery.js\<close>: \<^verbatim>\<open>parseFilename\<close>,
  \<^verbatim>\<open>groupByCategory\<close>, \<^verbatim>\<open>parseDateFromDescription\<close> and \<^verbatim>\<open>groupByYearMonth\<close>.

  A JavaScript string is a sequence of code units; the model takes \<^typ>\<open>string\<close>, whose
  characters are the code units below 256 (ASCII and Latin-1). The character classes of the
  language (white space, line terminators, letter case) are written out for that range.
  \<^verbatim>\<open>console.warn\<close> only reports; it is kept as the kind of the rejection.
\<close>

subsection \<open>Characters and strings of the language\<close>

text \<open>
  \<^verbatim>\<open>String.prototype.toLowerCase\<close>: below 256 the upper-case letters are \<open>A..Z\<close>
  (65..90) and the Latin-1 letters 192..222 without the multiplication sign 215; each is
  32 below its lower-case letter.
\<close>

definition toLowerCase_char :: "char \<Rightarrow> char" where
  "toLowerCase_char c =
     (let n = (of_char c :: nat)
      in if (65 \<le> n \<and> n \<le> 90) \<or> (192 \<le> n \<and> n \<le> 222 \<and> n \<noteq> 215)
         then char_of (n + 32) else c)"

definition toLowerCase :: "string \<Rightarrow> string" where
  "toLowerCase s = map toLowerCase_char s"

text \<open>
  White space and line terminators as \<^verbatim>\<open>\s\<close>, \<^verbatim>\<open>trim\<close> and \<^verbatim>\<open>parseInt\<close> see them:
  TAB, LF, VT, FF, CR, space and the no-break space 160. The line terminators, which
  \<^verbatim>\<open>.\<close> of a regular expression does not match, are LF and CR.
\<close>

definition is_space :: "char \<Rightarrow> bool" where
  "is_space c \<longleftrightarrow> (of_char c :: nat) \<in> {9, 10, 11, 12, 13, 32, 160}"

definition is_line_terminator :: "char \<Rightarrow> bool" where
  "is_line_terminator c \<longleftrightarrow> (of_char c :: nat) \<in> {10, 13}"

definition is_digit :: "char \<Rightarrow> bool" where
  "is_digit c \<longleftrightarrow> 48 \<le> (of_char c :: nat) \<and> (of_char c :: nat) \<le> 57"

definition is_letter :: "char \<Rightarrow> bool" where
  "is_letter c \<longleftrightarrow> (let n = (of_char c :: nat) in (65 \<le> n \<and> n \<le> 90) \<or> (97 \<le> n \<and> n \<le> 122))"

definition trim :: "string \<Rightarrow> string" where
  "trim s = rev (dropWhile is_space (rev (dropWhile is_space s)))"

text \<open>
  \<^verbatim>\<open>s.split('_')\<close> cuts at every underscore and always returns at least one segment;
  \<^verbatim>\<open>parts.join('_')\<close> puts the underscores back.
\<close>

fun split_us :: "string \<Rightarrow> string list" where
  "split_us [] = [[]]"
| "split_us (c # cs) =
     (if c = CHR ''_'' then [] # split_us cs
      else (case split_us cs of [] \<Rightarrow> [[c]] | p # ps \<Rightarrow> (c # p) # ps))"

fun join_us :: "string list \<Rightarrow> string" where
  "join_us [] = []"
| "join_us [p] = p"
| "join_us (p # q # ps) = p @ CHR ''_'' # join_us (q # ps)"

subsection \<open>Numbers\<close>

text \<open>
  The numbers that occur here are integers held in double precision, the two infinities
  and \<open>NaN\<close>. A finite number is written \<open>Num z\<close> with the integer \<open>z\<close> it stands for;
  negative zero is zero.

  The number for a mathematical integer is the nearest integer with at most 53
  significant bits, a tie going to the even one, and an infinity when that is \<open>2^1024\<close>
  or more in magnitude. \<open>excess_bits n\<close> is the number of bits of \<open>n\<close> beyond 53.
\<close>

datatype jsnum = NaN | Num int | PosInfinity | NegInfinity

function excess_bits :: "int \<Rightarrow> nat" where
  "excess_bits n = (if n < 2 ^ 53 then 0 else Suc (excess_bits (n div 2)))"
  by pat_completeness auto
termination
  by (relation "measure nat") auto

declare excess_bits.simps [simp del]

definition round_to_double :: "int \<Rightarrow> int" where
  "round_to_double n =
     (let e = excess_bits n; q = n div 2 ^ e; r = n mod 2 ^ e
      in if 2 ^ e < 2 * r \<or> (2 * r = 2 ^ e \<and> odd q) then (q + 1) * 2 ^ e else q * 2 ^ e)"

definition to_Number :: "int \<Rightarrow> jsnum" where
  "to_Number z =
     (if \<bar>z\<bar> < 2 ^ 53 then Num z
      else
        let m = round_to_double \<bar>z\<bar>
        in if 2 ^ 1024 \<le> m then (if z < 0 then NegInfinity else PosInfinity)
           else Num (if z < 0 then - m else m))"

text \<open>
  \<^verbatim>\<open>parseInt(s, 10)\<close> skips leading white space, reads an optional sign and the longest
  run of decimal digits, and is \<open>NaN\<close> when there is no digit; otherwise it is the number
  for the signed value of the digits. (Past the twentieth significant digit the language
  lets an implementation read the digits as zeros; the model rounds the exact value.)
\<close>

definition digit_val :: "char \<Rightarrow> int" where
  "digit_val c = int (of_char c) - 48"

definition digits_value :: "string \<Rightarrow> int" where
  "digits_value ds = foldl (\<lambda>acc d. 10 * acc + digit_val d) 0 ds"

definition parseInt10 :: "string \<Rightarrow> jsnum" where
  "parseInt10 s =
     (let t = dropWhile is_space s;
          sign = (case t of c # _ \<Rightarrow> if c = CHR ''-'' then - 1 else 1 | [] \<Rightarrow> (1::int));
          u = (case t of c # r \<Rightarrow> if c = CHR ''-'' \<or> c = CHR ''+'' then r else t | [] \<Rightarrow> t);
          z = takeWhile is_digit u
      in if z = [] then NaN else to_Number (sign * digits_value z))"

subsection \<open>The category configuration\<close>

text \<open>
  \<^verbatim>\<open>CATEGORIES\<close> is an object literal with four own keys, in this order. Reading
  \<^verbatim>\<open>CATEGORIES[key]\<close> follows the prototype chain: a key that is not an own key is looked up
  in \<^verbatim>\<open>Object.prototype\<close>, whose properties are functions (and, for \<^verbatim>\<open>__proto__\<close>, the
  prototype object), all of them truthy. Every own value is an object, truthy as well.
\<close>

definition CATEGORIES_keys :: "string list" where
  "CATEGORIES_keys = [''conference'', ''activity'', ''lablife'', ''campus'']"

definition Object_prototype_keys :: "string list" where
  "Object_prototype_keys =
     [''constructor'', ''hasOwnProperty'', ''isPrototypeOf'', ''propertyIsEnumerable'',
      ''toLocaleString'', ''toString'', ''valueOf'', ''__proto__'',
      ''__defineGetter__'', ''__defineSetter__'', ''__lookupGetter__'', ''__lookupSetter__'']"

definition CATEGORIES_truthy :: "string \<Rightarrow> bool" where
  "CATEGORIES_truthy key \<longleftrightarrow> key \<in> set CATEGORIES_keys \<or> key \<in> set Object_prototype_keys"

subsection \<open>parseFilename\<close>

record MediaItem =
  filename :: string
  category :: string
  order :: jsnum
  description :: string

datatype rejection = MalformedFilename | UnknownCategory

definition IMAGE_EXTENSIONS :: "string list" where
  "IMAGE_EXTENSIONS = [''jpg'', ''jpeg'', ''png'', ''gif'', ''webp'']"

text \<open>
  \<^verbatim>\<open>filename.replace(/\.(jpg|jpeg|png|gif|webp)$/i, '')\<close>: the pattern is tried at each
  start position from the left; it matches there when the rest of the input is a dot and
  one of the alternatives, letter case ignored, up to the end of the input. The first
  match is replaced by the empty string, so the result is what stands before it.
\<close>

fun strip_ext :: "string \<Rightarrow> string" where
  "strip_ext [] = []"
| "strip_ext (c # cs) =
     (if c = CHR ''.'' \<and> toLowerCase cs \<in> set IMAGE_EXTENSIONS then []
      else c # strip_ext cs)"

definition parseFilename :: "string \<Rightarrow> rejection + MediaItem" where
  "parseFilename fname =
     (let nameWithoutExt = strip_ext fname;
          parts = split_us nameWithoutExt
      in if length parts < 3 then Inl MalformedFilename
         else
           let cat = toLowerCase (parts ! 0);
               ord = parseInt10 (parts ! 1);
               descr = join_us (drop 2 parts)
           in if \<not> CATEGORIES_truthy cat then Inl UnknownCategory
              else Inr \<lparr>filename = fname, category = cat, order = ord, description = descr\<rparr>)"

subsection \<open>groupByCategory\<close>

text \<open>
  \<^verbatim>\<open>grouped\<close> starts as an empty object and receives one empty array per key of
  \<^verbatim>\<open>CATEGORIES\<close>; string keys keep their insertion order, so the grouping is an association
  list in the order of \<^const>\<open>CATEGORIES_keys\<close>.

  \<^verbatim>\<open>grouped[parsed.category].push(parsed)\<close>: for an own key the array grows at its end.
  For any other key the value read is inherited from \<^verbatim>\<open>Object.prototype\<close> or undefined;
  neither has a callable \<^verbatim>\<open>push\<close>, the call throws a \<^verbatim>\<open>TypeError\<close>, and the exception
  leaves \<^verbatim>\<open>forEach\<close> and \<^verbatim>\<open>groupByCategory\<close>.
\<close>

datatype exn = TypeError

type_synonym grouped = "(string \<times> MediaItem list) list"

definition init_grouped :: grouped where
  "init_grouped = map (\<lambda>cat. (cat, [])) CATEGORIES_keys"

fun push_parsed :: "grouped \<Rightarrow> string list \<Rightarrow> exn + grouped" where
  "push_parsed g [] = Inr g"
| "push_parsed g (fname # rest) =
     (case parseFilename fname of
        Inl _ \<Rightarrow> push_parsed g rest
      | Inr parsed \<Rightarrow>
          (case map_of g (category parsed) of
             None \<Rightarrow> Inl TypeError
           | Some items \<Rightarrow>
               push_parsed (AList.update (category parsed) (items @ [parsed]) g) rest))"

text \<open>
  The comparator \<^verbatim>\<open>(a, b) => a.order - b.order\<close>. The difference of two finite
  numbers is the number for their exact difference; a difference with \<open>NaN\<close>, and the
  difference of an infinity and itself, is \<open>NaN\<close>.
\<close>

fun js_minus :: "jsnum \<Rightarrow> jsnum \<Rightarrow> jsnum" where
  "js_minus (Num x) (Num y) = to_Number (x - y)"
| "js_minus PosInfinity (Num y) = PosInfinity"
| "js_minus PosInfinity NegInfinity = PosInfinity"
| "js_minus NegInfinity (Num y) = NegInfinity"
| "js_minus NegInfinity PosInfinity = NegInfinity"
| "js_minus (Num x) PosInfinity = NegInfinity"
| "js_minus (Num x) NegInfinity = PosInfinity"
| "js_minus _ _ = NaN"

definition compareOrder :: "MediaItem \<Rightarrow> MediaItem \<Rightarrow> jsnum" where
  "compareOrder a b = js_minus (order a) (order b)"

text \<open>
  \<^verbatim>\<open>Array.prototype.sort\<close> reads the comparator's result as a number and takes \<open>NaN\<close>
  for \<open>+0\<close>; an element goes after another when the result for the two is positive.
  The sort is stable. The language fixes its result when the comparator is a consistent
  comparison of the elements, which it is as long as no order is \<open>NaN\<close> or all orders
  compare as ties; otherwise (a \<open>NaN\<close> order among different numeric orders) it leaves
  the sequence to the implementation. The model is the stable insertion sort: it is the
  result of the language wherever the language fixes one, and one admissible sequence
  elsewhere. No property below is stated of a sequence that the language leaves open.
\<close>

definition sort_compare :: "('a \<Rightarrow> 'a \<Rightarrow> jsnum) \<Rightarrow> 'a \<Rightarrow> 'a \<Rightarrow> jsnum" where
  "sort_compare cmp a b = (case cmp a b of NaN \<Rightarrow> Num 0 | Num v \<Rightarrow> Num v
                             | PosInfinity \<Rightarrow> PosInfinity | NegInfinity \<Rightarrow> NegInfinity)"

fun js_positive :: "jsnum \<Rightarrow> bool" where
  "js_positive (Num v) = (0 < v)"
| "js_positive PosInfinity = True"
| "js_positive _ = False"

fun insort_cmp :: "('a \<Rightarrow> 'a \<Rightarrow> jsnum) \<Rightarrow> 'a \<Rightarrow> 'a list \<Rightarrow> 'a list" where
  "insort_cmp cmp x [] = [x]"
| "insort_cmp cmp x (y # ys) =
     (if js_positive (sort_compare cmp x y) then y # insort_cmp cmp x ys else x # y # ys)"

definition js_sort :: "('a \<Rightarrow> 'a \<Rightarrow> jsnum) \<Rightarrow> 'a list \<Rightarrow> 'a list" where
  "js_sort cmp xs = foldr (insort_cmp cmp) xs []"

definition groupByCategory :: "string list \<Rightarrow> exn + grouped" where
  "groupByCategory images =
     (case push_parsed init_grouped images of
        Inl e \<Rightarrow> Inl e
      | Inr g \<Rightarrow> Inr (map (\<lambda>(cat, items). (cat, js_sort compareOrder items)) g))"

subsection \<open>parseDateFromDescription\<close>

definition MONTH_NAMES :: "string list" where
  "MONTH_NAMES = [''Jan'', ''Feb'', ''Mar'', ''Apr'', ''May'', ''Jun'',
                  ''Jul'', ''Aug'', ''Sep'', ''Oct'', ''Nov'', ''Dec'']"

definition MONTH_MAP :: "(string \<times> nat) list" where
  "MONTH_MAP = [(''jan'', 0), (''feb'', 1), (''mar'', 2), (''apr'', 3), (''may'', 4), (''jun'', 5),
                (''jul'', 6), (''aug'', 7), (''sep'', 8), (''oct'', 9), (''nov'', 10), (''dec'', 11)]"

record DateInfo =
  year :: jsnum
  month :: nat
  monthName :: string
  event :: string

text \<open>
  The match of \<^verbatim>\<open>/^([A-Za-z]{3})\s+(\d{4})\s*-\s*(.+)$/\<close>, with its three groups. The
  pattern is anchored at both ends. Each greedy run of white space is followed by a
  character that is no white space, so it takes all the white space there is; only the
  last one can give characters back to \<^verbatim>\<open>(.+)\<close>, which needs at least one character,
  none of them a line terminator, up to the end of the input. When nothing but white
  space follows the dash, the run gives back its last character first.
\<close>

definition date_pattern :: "string \<Rightarrow> (string \<times> string \<times> string) option" where
  "date_pattern s =
     (let m1 = take 3 s; r1 = drop 3 s; r2 = dropWhile is_space r1;
          m2 = take 4 r2; r3 = drop 4 r2; r4 = dropWhile is_space r3
      in if length m1 = 3 \<and> list_all is_letter m1 \<and> r2 \<noteq> r1
            \<and> length m2 = 4 \<and> list_all is_digit m2
         then (case r4 of
                 [] \<Rightarrow> None
               | c # r5 \<Rightarrow>
                   if c \<noteq> CHR ''-'' then None
                   else
                     let ws = takeWhile is_space r5; rest = dropWhile is_space r5
                     in if rest \<noteq> []
                        then (if list_all (\<lambda>x. \<not> is_line_terminator x) rest
                              then Some (m1, m2, rest) else None)
                        else if ws \<noteq> [] \<and> \<not> is_line_terminator (last ws)
                             then Some (m1, m2, [last ws]) else None)
         else None)"

text \<open>
  \<^verbatim>\<open>MONTH_MAP[monthStr]\<close> is read as an own property: the first group has three letters,
  and no property of \<^verbatim>\<open>Object.prototype\<close> has a name that short
  (lemma \<open>month_key_not_inherited\<close>).
\<close>

definition parseDateFromDescription :: "string \<Rightarrow> DateInfo option" where
  "parseDateFromDescription descr =
     (case date_pattern descr of
        None \<Rightarrow> None
      | Some (m1, m2, m3) \<Rightarrow>
          let monthStr = toLowerCase m1;
              yr = parseInt10 m2;
              ev = trim m3
          in (case map_of MONTH_MAP monthStr of
                None \<Rightarrow> None
              | Some mo \<Rightarrow>
                  Some \<lparr>year = yr, month = mo, monthName = MONTH_NAMES ! mo, event = ev\<rparr>))"

subsection \<open>groupByYearMonth\<close>

text \<open>
  The timeline is an object of objects of arrays, keyed by year and by month index; the
  model is a map of maps. An entry is the parsed record with the field \<^verbatim>\<open>dateInfo\<close> added.
\<close>

record TimelineEntry = MediaItem +
  dateInfo :: DateInfo

type_synonym timeline = "jsnum \<rightharpoonup> (nat \<rightharpoonup> TimelineEntry list)"

definition add_to_timeline :: "timeline \<Rightarrow> string \<Rightarrow> timeline" where
  "add_to_timeline g fname =
     (case parseFilename fname of
        Inl _ \<Rightarrow> g
      | Inr parsed \<Rightarrow>
          (case parseDateFromDescription (description parsed) of
             None \<Rightarrow> g
           | Some d \<Rightarrow>
               let months = (case g (year d) of None \<Rightarrow> Map.empty | Some m \<Rightarrow> m);
                   bucket = (case months (month d) of None \<Rightarrow> [] | Some b \<Rightarrow> b)
               in g(year d \<mapsto>
                    months(month d \<mapsto> bucket @ [MediaItem.extend parsed \<lparr>dateInfo = d\<rparr>]))))"

definition groupByYearMonth :: "string list \<Rightarrow> timeline" where
  "groupByYearMonth images = foldl add_to_timeline Map.empty images"

subsection \<open>Notions used to state the properties\<close>

text \<open>
  The records of the filenames that \<^const>\<open>parseFilename\<close> accepts, in the order of the
  input list, and those of one category among them.
\<close>

fun accepted :: "string list \<Rightarrow> MediaItem list" where
  "accepted [] = []"
| "accepted (fname # rest) =
     (case parseFilename fname of
        Inl _ \<Rightarrow> accepted rest
      | Inr parsed \<Rightarrow> parsed # accepted rest)"

definition of_category :: "string \<Rightarrow> MediaItem list \<Rightarrow> MediaItem list" where
  "of_category cat items = filter (\<lambda>it. category it = cat) items"

text \<open>
  Ascending order as the specification words it: numbers by their value, and an order
  that is not a number after every number. \<open>order_key\<close> places the numbers in a linear
  order, the one of the pairs.
\<close>

fun spec_order_le :: "jsnum \<Rightarrow> jsnum \<Rightarrow> bool" where
  "spec_order_le NaN b = (b = NaN)"
| "spec_order_le a NaN = True"
| "spec_order_le NegInfinity b = True"
| "spec_order_le a NegInfinity = False"
| "spec_order_le a PosInfinity = True"
| "spec_order_le PosInfinity b = False"
| "spec_order_le (Num x) (Num y) = (x \<le> y)"

definition ascending_by_order :: "MediaItem list \<Rightarrow> bool" where
  "ascending_by_order items = sorted_wrt (\<lambda>a b. spec_order_le (order a) (order b)) items"

fun order_key :: "jsnum \<Rightarrow> int \<times> int" where
  "order_key NegInfinity = (- 1, 0)"
| "order_key (Num x) = (0, x)"
| "order_key PosInfinity = (1, 0)"
| "order_key NaN = (2, 0)"

text \<open>
  The content of a timeline: every entry with the year and the month of its bucket; and
  what one filename contributes to it.
\<close>

definition timeline_entries :: "timeline \<Rightarrow> (jsnum \<times> nat \<times> TimelineEntry) set" where
  "timeline_entries g =
     {(y, m, e). \<exists>months bucket. g y = Some months \<and> months m = Some bucket \<and> e \<in> set bucket}"

definition dated :: "string \<Rightarrow> (jsnum \<times> nat \<times> TimelineEntry) set" where
  "dated fname =
     (case parseFilename fname of
        Inl _ \<Rightarrow> {}
      | Inr parsed \<Rightarrow>
          (case parseDateFromDescription (description parsed) of
             None \<Rightarrow> {}
           | Some d \<Rightarrow> {(year d, month d, MediaItem.extend parsed \<lparr>dateInfo = d\<rparr>)}))"

section \<open>Properties of the parser\<close>

subsection \<open>Segments\<close>

lemma split_us_nonempty: "split_us s \<noteq> []"
  by (induction s) (auto split: list.splits)

lemma split_us_segment:
  "CHR ''_'' \<notin> set c \<Longrightarrow> split_us (c @ CHR ''_'' # r) = c # split_us r"
  by (induction c) auto

lemma join_us_head: "join_us ((c # p) # ps) = c # join_us (p # ps)"
  by (cases ps) auto

lemma join_split_us: "join_us (split_us s) = s"
proof (induction s)
  case Nil
  show ?case by simp
next
  case (Cons c cs)
  obtain p ps where sp: "split_us cs = p # ps"
    using split_us_nonempty [of cs] by (cases "split_us cs") auto
  show ?case
  proof (cases "c = CHR ''_''")
    case True
    with sp Cons show ?thesis by simp
  next
    case False
    with sp Cons show ?thesis by (simp add: join_us_head)
  qed
qed

text \<open>There is one segment more than there are underscores.\<close>

lemma length_split_us: "length (split_us s) = Suc (count_list s CHR ''_'')"
  by (induction s) (auto split: list.splits simp: split_us_nonempty)

text \<open>
  Claim C2. A filename whose name, once the extension is stripped, splits at the
  underscores into fewer than three segments is rejected as malformed.
\<close>

theorem malformed_rejected:
  "length (split_us (strip_ext fname)) < 3 \<Longrightarrow> parseFilename fname = Inl MalformedFilename"
  by (simp add: parseFilename_def)

theorem malformed_rejected_witness:
  "length (split_us (strip_ext ''bogus.jpg'')) < 3
   \<and> parseFilename ''bogus.jpg'' = Inl MalformedFilename"
proof -
  have h: "length (split_us (strip_ext ''bogus.jpg'')) < 3" by code_simp
  show ?thesis using h malformed_rejected [OF h] by simp
qed

subsection \<open>Categories\<close>

text \<open>
  Claim C3. A first segment outside the four categories should be rejected as an unknown
  category. The code tests \<^verbatim>\<open>!CATEGORIES[category]\<close>, which also finds the properties
  that every object inherits: the filename below has the first segment \<open>constructor\<close>,
  which is not one of the four keys, and it is accepted, with that category.
\<close>

theorem constructor_category_accepted:
  "parseFilename ''constructor_01_Poster.jpg'' =
     Inr \<lparr>filename = ''constructor_01_Poster.jpg'', category = ''constructor'',
          order = Num 1, description = ''Poster''\<rparr>
   \<and> ''constructor'' \<notin> set CATEGORIES_keys"
  by code_simp

subsection \<open>The description\<close>

text \<open>
  Claim C6. When the name without its extension is \<open>category_order_description\<close>, with one
  of the four categories (in any letter case) and no underscore in the first two segments,
  the parsed description is the description as it stands in the name, underscores included:
  all the segments after the second are joined again with the underscore.
\<close>

theorem description_roundtrip:
  assumes "CHR ''_'' \<notin> set cat" and "CHR ''_'' \<notin> set ord"
    and "toLowerCase cat \<in> set CATEGORIES_keys"
    and "strip_ext fname = cat @ ''_'' @ ord @ ''_'' @ descr"
  shows "parseFilename fname =
           Inr \<lparr>filename = fname, category = toLowerCase cat,
                order = parseInt10 ord, description = descr\<rparr>"
proof -
  have parts: "split_us (strip_ext fname) = cat # ord # split_us descr"
    using assms(1,2,4) by (simp add: split_us_segment)
  obtain p ps where sp: "split_us descr = p # ps"
    using split_us_nonempty [of descr] by (cases "split_us descr") auto
  have j: "join_us (p # ps) = descr"
    using join_split_us [of descr] sp by simp
  show ?thesis
    using assms(3) parts sp j by (simp add: parseFilename_def CATEGORIES_truthy_def)
qed

text \<open>The example of the claim: \<open>lablife_12_Sep_2025_-_Dinner\<close>.\<close>

theorem description_roundtrip_witness:
  "parseFilename ''lablife_12_Sep_2025_-_Dinner'' =
     Inr \<lparr>filename = ''lablife_12_Sep_2025_-_Dinner'', category = ''lablife'',
          order = Num 12, description = ''Sep_2025_-_Dinner''\<rparr>"
proof -
  have a: "CHR ''_'' \<notin> set ''lablife''" by simp
  have b: "CHR ''_'' \<notin> set ''12''" by simp
  have c: "toLowerCase ''lablife'' \<in> set CATEGORIES_keys" by code_simp
  have d: "strip_ext ''lablife_12_Sep_2025_-_Dinner''
             = ''lablife'' @ ''_'' @ ''12'' @ ''_'' @ ''Sep_2025_-_Dinner''"
    by code_simp
  have e: "toLowerCase ''lablife'' = ''lablife''" by code_simp
  have f: "parseInt10 ''12'' = Num 12" by code_simp
  show ?thesis using description_roundtrip [OF a b c d] e f by simp
qed

subsection \<open>The extension\<close>

lemma dot_toLowerCase: "CHR ''.'' \<in> set s \<Longrightarrow> CHR ''.'' \<in> set (toLowerCase s)"
proof -
  have "toLowerCase_char CHR ''.'' = CHR ''.''" by code_simp
  then show "CHR ''.'' \<in> set s \<Longrightarrow> CHR ''.'' \<in> set (toLowerCase s)"
    by (force simp: toLowerCase_def)
qed

lemma ext_no_dot: "x \<in> set IMAGE_EXTENSIONS \<Longrightarrow> CHR ''.'' \<notin> set x"
  by (auto simp: IMAGE_EXTENSIONS_def)

lemma strip_ext_known:
  "toLowerCase e \<in> set IMAGE_EXTENSIONS \<Longrightarrow> strip_ext (s @ CHR ''.'' # e) = s"
proof (induction s)
  case Nil
  then show ?case by simp
next
  case (Cons c s)
  have "CHR ''.'' \<in> set (toLowerCase (s @ CHR ''.'' # e))"
    by (rule dot_toLowerCase) simp
  then have "toLowerCase (s @ CHR ''.'' # e) \<notin> set IMAGE_EXTENSIONS"
    using ext_no_dot by blast
  with Cons show ?case by simp
qed

lemma strip_ext_unknown:
  "(\<forall>e. toLowerCase e \<in> set IMAGE_EXTENSIONS \<longrightarrow> \<not> suffix (CHR ''.'' # e) fname)
   \<Longrightarrow> strip_ext fname = fname"
proof (induction fname)
  case Nil
  show ?case by simp
next
  case (Cons c cs)
  have here: "\<not> (c = CHR ''.'' \<and> toLowerCase cs \<in> set IMAGE_EXTENSIONS)"
    using Cons.prems by (metis suffix_order.refl)
  have "\<forall>e. toLowerCase e \<in> set IMAGE_EXTENSIONS \<longrightarrow> \<not> suffix (CHR ''.'' # e) cs"
    using Cons.prems by (meson suffix_Cons)
  then have "strip_ext cs = cs" by (rule Cons.IH)
  with here show ?case by auto
qed

lemma ext_length: "toLowerCase x \<in> set IMAGE_EXTENSIONS \<Longrightarrow> length x = 3 \<or> length x = 4"
proof -
  assume "toLowerCase x \<in> set IMAGE_EXTENSIONS"
  then have "length (toLowerCase x) = 3 \<or> length (toLowerCase x) = 4"
    by (auto simp: IMAGE_EXTENSIONS_def)
  then show ?thesis by (simp add: toLowerCase_def)
qed

lemma suffix_is_drop: "suffix a b \<Longrightarrow> a = drop (length b - length a) b"
  by (auto simp: suffix_def)

text \<open>
  Claim C9. The parser strips a recognised extension, in any letter case, before it
  splits: the result for a name followed by a dot and such an extension is the one the
  segments of the name give, the extension being no part of the description. A filename
  that ends in no recognised extension is left as it is, and the result is then the one
  its own segments give: the extension is no ground for a rejection.
\<close>

theorem extension_stripping:
  "(toLowerCase e \<in> set IMAGE_EXTENSIONS \<longrightarrow>
        strip_ext (s @ ''.'' @ e) = s
        \<and> parseFilename (s @ ''.'' @ e) =
            (if length (split_us s) < 3 then Inl MalformedFilename
             else if \<not> CATEGORIES_truthy (toLowerCase (split_us s ! 0))
                  then Inl UnknownCategory
                  else Inr \<lparr>filename = s @ ''.'' @ e, category = toLowerCase (split_us s ! 0),
                            order = parseInt10 (split_us s ! 1),
                            description = join_us (drop 2 (split_us s))\<rparr>))
   \<and> ((\<forall>x. toLowerCase x \<in> set IMAGE_EXTENSIONS \<longrightarrow> \<not> suffix (''.'' @ x) fname) \<longrightarrow>
        strip_ext fname = fname
        \<and> parseFilename fname =
            (if length (split_us fname) < 3 then Inl MalformedFilename
             else if \<not> CATEGORIES_truthy (toLowerCase (split_us fname ! 0))
                  then Inl UnknownCategory
                  else Inr \<lparr>filename = fname, category = toLowerCase (split_us fname ! 0),
                            order = parseInt10 (split_us fname ! 1),
                            description = join_us (drop 2 (split_us fname))\<rparr>))"
proof (intro conjI impI)
  assume "toLowerCase e \<in> set IMAGE_EXTENSIONS"
  then show k: "strip_ext (s @ ''.'' @ e) = s" using strip_ext_known by simp
  show "parseFilename (s @ ''.'' @ e) =
            (if length (split_us s) < 3 then Inl MalformedFilename
             else if \<not> CATEGORIES_truthy (toLowerCase (split_us s ! 0))
                  then Inl UnknownCategory
                  else Inr \<lparr>filename = s @ ''.'' @ e, category = toLowerCase (split_us s ! 0),
                            order = parseInt10 (split_us s ! 1),
                            description = join_us (drop 2 (split_us s))\<rparr>)"
    by (simp only: parseFilename_def k Let_def)
next
  assume a: "\<forall>x. toLowerCase x \<in> set IMAGE_EXTENSIONS \<longrightarrow> \<not> suffix (''.'' @ x) fname"
  then show u: "strip_ext fname = fname" using strip_ext_unknown by simp
  show "parseFilename fname =
            (if length (split_us fname) < 3 then Inl MalformedFilename
             else if \<not> CATEGORIES_truthy (toLowerCase (split_us fname ! 0))
                  then Inl UnknownCategory
                  else Inr \<lparr>filename = fname, category = toLowerCase (split_us fname ! 0),
                            order = parseInt10 (split_us fname ! 1),
                            description = join_us (drop 2 (split_us fname))\<rparr>)"
    by (simp add: parseFilename_def u Let_def)
qed

text \<open>
  \<open>lablife_06_Draft.PNG\<close> is parsed without its extension, the description being
  \<open>Draft\<close>; \<open>campus_02_Wilson Library.bmp\<close> ends in no recognised extension and is
  accepted as it stands, the description keeping \<open>.bmp\<close>.
\<close>

theorem extension_stripping_witness:
  "strip_ext ''lablife_06_Draft.PNG'' = ''lablife_06_Draft''
   \<and> parseFilename ''lablife_06_Draft.PNG'' =
        Inr \<lparr>filename = ''lablife_06_Draft.PNG'', category = ''lablife'',
             order = Num 6, description = ''Draft''\<rparr>
   \<and> strip_ext ''campus_02_Wilson Library.bmp'' = ''campus_02_Wilson Library.bmp''
   \<and> parseFilename ''campus_02_Wilson Library.bmp'' =
        Inr \<lparr>filename = ''campus_02_Wilson Library.bmp'', category = ''campus'',
             order = Num 2, description = ''Wilson Library.bmp''\<rparr>"
proof -
  let ?f = "''campus_02_Wilson Library.bmp''"
  let ?s = "''lablife_06_Draft''"
  have known: "toLowerCase ''PNG'' \<in> set IMAGE_EXTENSIONS" by code_simp
  have bmp: "toLowerCase ''bmp'' \<notin> set IMAGE_EXTENSIONS" by code_simp
  have unknown: "\<forall>x. toLowerCase x \<in> set IMAGE_EXTENSIONS \<longrightarrow> \<not> suffix (''.'' @ x) ?f"
  proof (intro allI impI notI)
    fix x
    assume x: "toLowerCase x \<in> set IMAGE_EXTENSIONS" and sf: "suffix (''.'' @ x) ?f"
    from suffix_is_drop [OF sf]
    have eq: "CHR ''.'' # x = drop (length ?f - length (CHR ''.'' # x)) ?f"
      by simp
    from ext_length [OF x] show False
    proof
      assume "length x = 3"
      with eq have "x = ''bmp''" by simp
      with x bmp show False by simp
    next
      assume "length x = 4"
      with eq show False by simp
    qed
  qed
  have segs: "split_us ?f = [''campus'', ''02'', ''Wilson Library.bmp'']" by code_simp
  have c: "CATEGORIES_truthy (toLowerCase ''campus'')" by code_simp
  have l: "toLowerCase ''campus'' = ''campus''" by code_simp
  have n: "parseInt10 ''02'' = Num 2" by code_simp
  have segs': "split_us ?s = [''lablife'', ''06'', ''Draft'']" by code_simp
  have c': "CATEGORIES_truthy (toLowerCase ''lablife'')" by code_simp
  have l': "toLowerCase ''lablife'' = ''lablife''" by code_simp
  have n': "parseInt10 ''06'' = Num 6" by code_simp
  note inst = extension_stripping [of "''PNG''" ?s ?f]
  from inst known have a: "strip_ext (?s @ ''.'' @ ''PNG'') = ?s"
    by blast
  from inst known have
    "parseFilename (?s @ ''.'' @ ''PNG'') =
       (if length (split_us ?s) < 3 then Inl MalformedFilename
        else if \<not> CATEGORIES_truthy (toLowerCase (split_us ?s ! 0))
             then Inl UnknownCategory
             else Inr \<lparr>filename = ?s @ ''.'' @ ''PNG'', category = toLowerCase (split_us ?s ! 0),
                       order = parseInt10 (split_us ?s ! 1),
                       description = join_us (drop 2 (split_us ?s))\<rparr>)"
    by blast
  then have q: "parseFilename (?s @ ''.'' @ ''PNG'') =
        Inr \<lparr>filename = ?s @ ''.'' @ ''PNG'', category = ''lablife'', order = Num 6,
             description = ''Draft''\<rparr>"
    unfolding segs' using c' l' n' by simp
  from inst unknown have b: "strip_ext ?f = ?f" by blast
  from inst unknown have
    "parseFilename ?f =
       (if length (split_us ?f) < 3 then Inl MalformedFilename
        else if \<not> CATEGORIES_truthy (toLowerCase (split_us ?f ! 0))
             then Inl UnknownCategory
             else Inr \<lparr>filename = ?f, category = toLowerCase (split_us ?f ! 0),
                       order = parseInt10 (split_us ?f ! 1),
                       description = join_us (drop 2 (split_us ?f))\<rparr>)"
    by blast
  then have p: "parseFilename ?f =
        Inr \<lparr>filename = ?f, category = ''campus'', order = Num 2,
             description = ''Wilson Library.bmp''\<rparr>"
    unfolding segs using c l n by simp
  from a have a': "strip_ext ''lablife_06_Draft.PNG'' = ''lablife_06_Draft''" by simp
  from q have q': "parseFilename ''lablife_06_Draft.PNG'' =
        Inr \<lparr>filename = ''lablife_06_Draft.PNG'', category = ''lablife'',
             order = Num 6, description = ''Draft''\<rparr>"
    by simp
  from a' q' b p show ?thesis by blast
qed

section \<open>Properties of the category view\<close>

lemma set_accepted:
  "set (accepted images) = {it. \<exists>fname \<in> set images. parseFilename fname = Inr it}"
  by (induction images) (auto split: sum.splits)

text \<open>
  When the loop over the filenames ends without an exception, the keys are those it
  started with, and each bucket has received, in input order, the accepted records of
  its category.
\<close>

lemma push_parsed_Inr:
  "push_parsed g images = Inr g' \<Longrightarrow>
     map fst g' = map fst g
     \<and> (\<forall>cat. map_of g' cat
              = map_option (\<lambda>xs. xs @ of_category cat (accepted images)) (map_of g cat))"
proof (induction images arbitrary: g)
  case Nil
  then show ?case by (auto simp: of_category_def option.map_ident)
next
  case (Cons fname rest)
  show ?case
  proof (cases "parseFilename fname")
    case (Inl r)
    with Cons show ?thesis by simp
  next
    case (Inr parsed)
    with Cons.prems obtain items where
      it: "map_of g (category parsed) = Some items" and
      rec: "push_parsed (AList.update (category parsed) (items @ [parsed]) g) rest = Inr g'"
      by (auto split: option.splits)
    let ?g1 = "AList.update (category parsed) (items @ [parsed]) g"
    have key: "category parsed \<in> fst ` set g"
      using it by (metis map_of_SomeD fst_conv image_eqI)
    have k1: "map fst ?g1 = map fst g"
      using key by (simp add: update_keys)
    from Cons.IH [OF rec] have
      a: "map fst g' = map fst ?g1" and
      b: "\<And>cat. map_of g' cat
             = map_option (\<lambda>xs. xs @ of_category cat (accepted rest)) (map_of ?g1 cat)"
      by auto
    have "map_of g' cat
            = map_option (\<lambda>xs. xs @ of_category cat (accepted (fname # rest))) (map_of g cat)"
      for cat
      using b [of cat] it Inr by (auto simp: update_conv of_category_def)
    with a k1 show ?thesis by simp
  qed
qed

text \<open>The loop throws exactly when some accepted record has a category that is no key.\<close>

lemma push_parsed_Inl:
  "push_parsed g images = Inl e \<longleftrightarrow> (\<exists>it \<in> set (accepted images). category it \<notin> fst ` set g)"
proof (induction images arbitrary: g)
  case Nil
  show ?case by simp
next
  case (Cons fname rest)
  show ?case
  proof (cases "parseFilename fname")
    case (Inl r)
    with Cons show ?thesis by simp
  next
    case (Inr parsed)
    show ?thesis
    proof (cases "map_of g (category parsed)")
      case None
      then have "category parsed \<notin> fst ` set g" by (simp add: map_of_eq_None_iff)
      with None Inr show ?thesis by (cases e) auto
    next
      case (Some items)
      then have key: "category parsed \<in> fst ` set g"
        by (metis map_of_SomeD fst_conv image_eqI)
      then have "fst ` set (AList.update (category parsed) (items @ [parsed]) g) = fst ` set g"
        by (metis update_keys list.set_map)
      with Cons.IH [of "AList.update (category parsed) (items @ [parsed]) g"] Some Inr key
      show ?thesis by auto
    qed
  qed
qed

lemma alist_by_keys:
  "distinct (map fst g) \<Longrightarrow> g = map (\<lambda>k. (k, the (map_of g k))) (map fst g)"
proof (induction g)
  case Nil
  show ?case by simp
next
  case (Cons kv g)
  obtain k v where kv: "kv = (k, v)" by (cases kv)
  from Cons.prems kv have nk: "k \<notin> fst ` set g" and d: "distinct (map fst g)" by auto
  have "map (\<lambda>k'. (k', the (map_of (kv # g) k'))) (map fst g)
          = map (\<lambda>k'. (k', the (map_of g k'))) (map fst g)"
    using nk kv by (auto simp: image_iff)
  with Cons.IH [OF d] kv show ?case by simp
qed

text \<open>
  The grouping that \<^const>\<open>groupByCategory\<close> returns, when it returns one: the four
  categories in their declaration order, each with the sorted records of that category.
\<close>

lemma groupByCategory_Inr:
  assumes "groupByCategory images = Inr g"
  shows "g = map (\<lambda>cat. (cat, js_sort compareOrder (of_category cat (accepted images))))
               CATEGORIES_keys"
proof -
  from assms obtain g0 where
    p: "push_parsed init_grouped images = Inr g0" and
    g: "g = map (\<lambda>(cat, items). (cat, js_sort compareOrder items)) g0"
    by (auto simp: groupByCategory_def split: sum.splits)
  from push_parsed_Inr [OF p] have
    keys0: "map fst g0 = CATEGORIES_keys" and
    vals0: "\<And>cat. map_of g0 cat
              = map_option (\<lambda>xs. xs @ of_category cat (accepted images)) (map_of init_grouped cat)"
    by (auto simp: init_grouped_def comp_def)
  have keys: "map fst g = CATEGORIES_keys"
    using keys0 g by (simp add: comp_def case_prod_unfold)
  have d: "distinct (map fst g)"
    unfolding keys by (simp add: CATEGORIES_keys_def)
  have init: "map_of init_grouped cat = Some []" if "cat \<in> set CATEGORIES_keys" for cat
    using that by (auto simp: init_grouped_def CATEGORIES_keys_def)
  have vals: "map_of g cat = Some (js_sort compareOrder (of_category cat (accepted images)))"
    if "cat \<in> set CATEGORIES_keys" for cat
    using vals0 [of cat] init [OF that] by (simp add: g map_of_map)
  have "g = map (\<lambda>k. (k, the (map_of g k))) CATEGORIES_keys"
    using alist_by_keys [OF d] keys by simp
  also have "\<dots> = map (\<lambda>cat. (cat, js_sort compareOrder (of_category cat (accepted images))))
                     CATEGORIES_keys"
    using vals by simp
  finally show ?thesis .
qed

lemma groupByCategory_Inl:
  "groupByCategory images = Inl e \<longleftrightarrow>
     (\<exists>it \<in> set (accepted images). category it \<notin> set CATEGORIES_keys)"
proof -
  have "groupByCategory images = Inl e \<longleftrightarrow> push_parsed init_grouped images = Inl e"
    by (auto simp: groupByCategory_def split: sum.splits)
  also have "\<dots> \<longleftrightarrow> (\<exists>it \<in> set (accepted images). category it \<notin> set CATEGORIES_keys)"
    by (simp add: push_parsed_Inl init_grouped_def image_image)
  finally show ?thesis .
qed

lemma groupByCategory_returns:
  assumes "\<forall>it \<in> set (accepted images). category it \<in> set CATEGORIES_keys"
  shows "groupByCategory images =
           Inr (map (\<lambda>cat. (cat, js_sort compareOrder (of_category cat (accepted images))))
                    CATEGORIES_keys)"
proof -
  have "\<not> (\<exists>e. groupByCategory images = Inl e)"
    using assms by (auto simp: groupByCategory_Inl)
  then obtain g where r: "groupByCategory images = Inr g"
    by (cases "groupByCategory images") auto
  with groupByCategory_Inr [OF r] show ?thesis by simp
qed

lemma bucket_of_category:
  "cat \<in> set CATEGORIES_keys \<Longrightarrow>
   map_of (map (\<lambda>cat. (cat, js_sort compareOrder (of_category cat items))) CATEGORIES_keys) cat
     = Some (js_sort compareOrder (of_category cat items))"
  by (simp add: map_of_map_restrict)

subsection \<open>The sort\<close>

lemma set_insort_cmp: "set (insort_cmp cmp x ys) = insert x (set ys)"
  by (induction ys) auto

lemma set_js_sort: "set (js_sort cmp xs) = set xs"
  by (induction xs) (auto simp: js_sort_def set_insort_cmp)

lemma length_insort_cmp: "length (insort_cmp cmp x ys) = Suc (length ys)"
  by (induction ys) auto

lemma length_js_sort: "length (js_sort cmp xs) = length xs"
  by (induction xs) (auto simp: js_sort_def length_insort_cmp)

text \<open>The number for an integer has the sign of the integer.\<close>

lemma excess_bits_le: "0 < n \<Longrightarrow> 2 ^ excess_bits n \<le> n"
proof (induction n rule: excess_bits.induct)
  case (1 n)
  show ?case
  proof (cases "n < 2 ^ 53")
    case True
    with "1.prems" show ?thesis by (simp add: excess_bits.simps [of n])
  next
    case False
    then have pos: "0 < n div 2" by simp
    from "1.IH" [OF False pos] have "2 ^ excess_bits (n div 2) \<le> n div 2" .
    then have "2 * 2 ^ excess_bits (n div 2) \<le> n" by simp
    with False show ?thesis by (simp add: excess_bits.simps [of n])
  qed
qed

lemma round_to_double_pos: "0 < n \<Longrightarrow> 0 < round_to_double n"
proof -
  assume n: "0 < n"
  let ?e = "excess_bits n"
  have "2 ^ ?e \<le> n" by (rule excess_bits_le [OF n])
  then have "0 < n div 2 ^ ?e" by (simp add: pos_imp_zdiv_pos_iff)
  then show ?thesis by (simp add: round_to_double_def Let_def)
qed

lemma js_positive_to_Number: "js_positive (to_Number z) \<longleftrightarrow> 0 < z"
proof (cases "\<bar>z\<bar> < 2 ^ 53")
  case True
  then show ?thesis by (simp add: to_Number_def)
next
  case False
  then have "0 < \<bar>z\<bar>" by simp
  then have "0 < round_to_double \<bar>z\<bar>" by (rule round_to_double_pos)
  moreover from False have "z \<noteq> 0" by auto
  ultimately show ?thesis using False by (auto simp: to_Number_def Let_def)
qed

lemma js_positive_sort_compare: "js_positive (sort_compare cmp a b) = js_positive (cmp a b)"
  by (cases "cmp a b") (simp_all add: sort_compare_def)

text \<open>
  On orders that are numbers the comparator agrees with the linear order of the keys, and
  the sort is the library's stable sort by that key.
\<close>

lemma js_minus_key:
  "a \<noteq> NaN \<Longrightarrow> b \<noteq> NaN \<Longrightarrow> js_positive (js_minus a b) \<longleftrightarrow> \<not> order_key a \<le> order_key b"
  by (cases a; cases b) (auto simp: js_positive_to_Number)

lemma spec_order_le_key: "spec_order_le a b \<longleftrightarrow> order_key a \<le> order_key b"
  by (cases a; cases b) auto

lemma order_key_inj: "order_key a = order_key b \<longleftrightarrow> a = b"
  by (cases a; cases b) auto

lemma insort_cmp_numeric:
  "order x \<noteq> NaN \<Longrightarrow> \<forall>y \<in> set ys. order y \<noteq> NaN \<Longrightarrow>
   insort_cmp compareOrder x ys = insort_key (\<lambda>it. order_key (order it)) x ys"
  by (induction ys) (auto simp: js_positive_sort_compare compareOrder_def js_minus_key)

lemma js_sort_numeric:
  "\<forall>y \<in> set xs. order y \<noteq> NaN \<Longrightarrow>
   js_sort compareOrder xs = sort_key (\<lambda>it. order_key (order it)) xs"
proof (induction xs)
  case Nil
  show ?case by (simp add: js_sort_def)
next
  case (Cons x xs)
  then have ih: "js_sort compareOrder xs = sort_key (\<lambda>it. order_key (order it)) xs" by simp
  have "js_sort compareOrder (x # xs) = insort_cmp compareOrder x (js_sort compareOrder xs)"
    by (simp add: js_sort_def)
  also have "\<dots> = insort_key (\<lambda>it. order_key (order it)) x (js_sort compareOrder xs)"
    using Cons.prems by (intro insort_cmp_numeric) (auto simp: set_js_sort)
  finally show ?case using ih by simp
qed

lemma js_sort_numeric_ascending:
  assumes "\<forall>y \<in> set xs. order y \<noteq> NaN"
  shows "ascending_by_order (js_sort compareOrder xs)"
proof -
  let ?f = "\<lambda>it. order_key (order it)"
  have "sorted (map ?f (sort_key ?f xs))" by simp
  then have "sorted_wrt (\<lambda>a b. ?f a \<le> ?f b) (sort_key ?f xs)"
    by (simp add: sorted_map)
  then show ?thesis
    by (simp add: ascending_by_order_def js_sort_numeric [OF assms] spec_order_le_key)
qed

lemma js_sort_numeric_stable:
  assumes "\<forall>y \<in> set xs. order y \<noteq> NaN"
  shows "filter (\<lambda>it. order it = k) (js_sort compareOrder xs) = filter (\<lambda>it. order it = k) xs"
proof -
  let ?f = "\<lambda>it. order_key (order it)"
  have "filter (\<lambda>it. ?f it = order_key k) (sort_key ?f xs) = filter (\<lambda>it. ?f it = order_key k) xs"
    by (rule sort_key_stable)
  then show ?thesis
    by (simp add: order_key_inj js_sort_numeric [OF assms])
qed

subsection \<open>The end-to-end scenario\<close>

text \<open>
  Claim C1, as amended. On the list of the scenario the conference sequence is \<open>A\<close>
  (order 1) before \<open>B\<close> (order 2) and the other three categories are empty;
  \<open>bogus.jpg\<close> is dropped as malformed, and \<open>weird_x_Y.jpg\<close> is dropped too, as a file of
  an unknown category: \<open>weird\<close> is none of the four, so no record with an order that is
  not a number enters the grouping.
\<close>

theorem end_to_end_scenario:
  "groupByCategory [''conference_02_B.jpg'', ''conference_01_A.jpg'', ''bogus.jpg'', ''weird_x_Y.jpg'']
     = Inr [(''conference'',
             [\<lparr>filename = ''conference_01_A.jpg'', category = ''conference'',
                order = Num 1, description = ''A''\<rparr>,
              \<lparr>filename = ''conference_02_B.jpg'', category = ''conference'',
                order = Num 2, description = ''B''\<rparr>]),
            (''activity'', []), (''lablife'', []), (''campus'', [])]
   \<and> parseFilename ''bogus.jpg'' = Inl MalformedFilename
   \<and> parseFilename ''weird_x_Y.jpg'' = Inl UnknownCategory"
  by code_simp

text \<open>
  The claim as it was stated has \<open>weird_x_Y\<close> in the grouping, after the two numeric
  entries. The grouping of the scenario holds the two conference files and nothing else.
\<close>

theorem end_to_end_weird_counterexample:
  "\<not> isl (groupByCategory
             [''conference_02_B.jpg'', ''conference_01_A.jpg'', ''bogus.jpg'', ''weird_x_Y.jpg''])
   \<and> map filename (concat (map snd (projr (groupByCategory
             [''conference_02_B.jpg'', ''conference_01_A.jpg'', ''bogus.jpg'', ''weird_x_Y.jpg'']))))
       = [''conference_01_A.jpg'', ''conference_02_B.jpg'']
   \<and> ''weird_x_Y.jpg'' \<notin> set [''conference_01_A.jpg'', ''conference_02_B.jpg'']"
  by code_simp

subsection \<open>Every category is present\<close>

text \<open>
  Claim C7. Every category starts with an empty sequence, so the result should hold the
  four categories whatever the list, each category without a record with the empty
  sequence. For the empty list it does. The list of the one file
  \<open>constructor_01_Poster.jpg\<close> has no record of any of the four categories, and its
  result should be the same; but the file is accepted, with the category \<open>constructor\<close>,
  \<^verbatim>\<open>grouped['constructor'].push\<close> is no function, and \<^const>\<open>groupByCategory\<close> throws
  instead of returning the four empty sequences.
\<close>

theorem completeness_lost_with_constructor:
  "groupByCategory []
     = Inr [(''conference'', []), (''activity'', []), (''lablife'', []), (''campus'', [])]
   \<and> accepted [''constructor_01_Poster.jpg'']
       = [\<lparr>filename = ''constructor_01_Poster.jpg'', category = ''constructor'',
            order = Num 1, description = ''Poster''\<rparr>]
   \<and> groupByCategory [''constructor_01_Poster.jpg''] = Inl TypeError"
  by code_simp

text \<open>
  On every list whose accepted records carry categories of the enumeration the result
  has the four categories, and each category without a record has the empty sequence.
\<close>

lemma category_completeness:
  "groupByCategory []
     = Inr [(''conference'', []), (''activity'', []), (''lablife'', []), (''campus'', [])]
   \<and> ((\<forall>it \<in> set (accepted images). category it \<in> set CATEGORIES_keys) \<longrightarrow>
        (\<exists>g. groupByCategory images = Inr g
           \<and> map fst g = CATEGORIES_keys
           \<and> (\<forall>cat \<in> set CATEGORIES_keys.
                 (\<forall>it \<in> set (accepted images). category it \<noteq> cat) \<longrightarrow> map_of g cat = Some [])))"
proof (intro conjI impI)
  show "groupByCategory []
          = Inr [(''conference'', []), (''activity'', []), (''lablife'', []), (''campus'', [])]"
    by (simp add: groupByCategory_def init_grouped_def CATEGORIES_keys_def js_sort_def)
next
  assume ok: "\<forall>it \<in> set (accepted images). category it \<in> set CATEGORIES_keys"
  let ?g = "map (\<lambda>cat. (cat, js_sort compareOrder (of_category cat (accepted images))))
                CATEGORIES_keys"
  have r: "groupByCategory images = Inr ?g" by (rule groupByCategory_returns [OF ok])
  have k: "map fst ?g = CATEGORIES_keys" by (simp add: comp_def)
  have e: "map_of ?g cat = Some []"
    if c: "cat \<in> set CATEGORIES_keys" and none: "\<forall>it \<in> set (accepted images). category it \<noteq> cat"
    for cat
  proof -
    have "of_category cat (accepted images) = []"
      using none by (auto simp: of_category_def filter_empty_conv)
    with bucket_of_category [OF c, of "accepted images"] show ?thesis
      by (simp add: js_sort_def)
  qed
  from r k e show "\<exists>g. groupByCategory images = Inr g
           \<and> map fst g = CATEGORIES_keys
           \<and> (\<forall>cat \<in> set CATEGORIES_keys.
                 (\<forall>it \<in> set (accepted images). category it \<noteq> cat) \<longrightarrow> map_of g cat = Some [])"
    by blast
qed

subsection \<open>Ascending and stable\<close>

text \<open>
  Claim C8, as amended. For a list whose accepted records carry categories of the
  enumeration, and a category whose records all have a number as order, the sequence of
  the category is ascending by order, and the records of any one order stand in it as
  they stand in the input list.
\<close>

theorem category_sorted_stable:
  assumes "\<forall>it \<in> set (accepted images). category it \<in> set CATEGORIES_keys"
    and "cat \<in> set CATEGORIES_keys"
    and "\<forall>it \<in> set (accepted images). category it = cat \<longrightarrow> order it \<noteq> NaN"
  shows "\<exists>g items. groupByCategory images = Inr g \<and> map_of g cat = Some items
           \<and> ascending_by_order items
           \<and> (\<forall>k. filter (\<lambda>it. order it = k) items
                   = filter (\<lambda>it. order it = k) (of_category cat (accepted images)))"
proof -
  let ?xs = "of_category cat (accepted images)"
  let ?g = "map (\<lambda>cat. (cat, js_sort compareOrder (of_category cat (accepted images))))
                CATEGORIES_keys"
  have r: "groupByCategory images = Inr ?g" by (rule groupByCategory_returns [OF assms(1)])
  have b: "map_of ?g cat = Some (js_sort compareOrder ?xs)"
    by (rule bucket_of_category [OF assms(2)])
  have num: "\<forall>y \<in> set ?xs. order y \<noteq> NaN"
    using assms(3) by (simp add: of_category_def)
  from r b js_sort_numeric_ascending [OF num] js_sort_numeric_stable [OF num]
  show ?thesis by blast
qed

text \<open>
  Three lab-life files with the orders 2, 1, 2 and a campus file: the two files of order 2
  keep their input order, \<open>B\<close> before \<open>C\<close>.
\<close>

theorem category_sorted_stable_witness:
  "\<exists>g items.
      groupByCategory [''lablife_02_B.jpg'', ''lablife_01_A.jpg'', ''lablife_02_C.jpg'',
                       ''campus_01_D.jpg''] = Inr g
      \<and> map_of g ''lablife'' = Some items
      \<and> ascending_by_order items
      \<and> filter (\<lambda>it. order it = Num 2) items
          = [\<lparr>filename = ''lablife_02_B.jpg'', category = ''lablife'',
               order = Num 2, description = ''B''\<rparr>,
             \<lparr>filename = ''lablife_02_C.jpg'', category = ''lablife'',
               order = Num 2, description = ''C''\<rparr>]"
proof -
  let ?imgs = "[''lablife_02_B.jpg'', ''lablife_01_A.jpg'', ''lablife_02_C.jpg'',
                ''campus_01_D.jpg'']"
  have acc: "accepted ?imgs
               = [\<lparr>filename = ''lablife_02_B.jpg'', category = ''lablife'',
                    order = Num 2, description = ''B''\<rparr>,
                  \<lparr>filename = ''lablife_01_A.jpg'', category = ''lablife'',
                    order = Num 1, description = ''A''\<rparr>,
                  \<lparr>filename = ''lablife_02_C.jpg'', category = ''lablife'',
                    order = Num 2, description = ''C''\<rparr>,
                  \<lparr>filename = ''campus_01_D.jpg'', category = ''campus'',
                    order = Num 1, description = ''D''\<rparr>]"
    by code_simp
  have h1: "\<forall>it \<in> set (accepted ?imgs). category it \<in> set CATEGORIES_keys"
    unfolding acc by (simp add: CATEGORIES_keys_def)
  have h2: "''lablife'' \<in> set CATEGORIES_keys" by (simp add: CATEGORIES_keys_def)
  have h3: "\<forall>it \<in> set (accepted ?imgs). category it = ''lablife'' \<longrightarrow> order it \<noteq> NaN"
    unfolding acc by simp
  from category_sorted_stable [OF h1 h2 h3] obtain g items where
    r: "groupByCategory ?imgs = Inr g" and b: "map_of g ''lablife'' = Some items" and
    a: "ascending_by_order items" and
    s: "\<forall>k. filter (\<lambda>it. order it = k) items
             = filter (\<lambda>it. order it = k) (of_category ''lablife'' (accepted ?imgs))"
    by blast
  have "filter (\<lambda>it. order it = Num 2) (of_category ''lablife'' (accepted ?imgs))
          = [\<lparr>filename = ''lablife_02_B.jpg'', category = ''lablife'',
               order = Num 2, description = ''B''\<rparr>,
             \<lparr>filename = ''lablife_02_C.jpg'', category = ''lablife'',
               order = Num 2, description = ''C''\<rparr>]"
    unfolding acc by (simp add: of_category_def)
  with s have "filter (\<lambda>it. order it = Num 2) items
          = [\<lparr>filename = ''lablife_02_B.jpg'', category = ''lablife'',
               order = Num 2, description = ''B''\<rparr>,
             \<lparr>filename = ''lablife_02_C.jpg'', category = ''lablife'',
               order = Num 2, description = ''C''\<rparr>]"
    by simp
  with r b a show ?thesis by blast
qed

text \<open>
  The claim as it was stated covers every sequence. A second segment without digits gives
  the order \<open>NaN\<close>, which the comparator turns into a tie with every other record: the
  two files below stay in input order, the one whose order is not a number before the
  one of order 1. The comparator is consistent on these two records (there is one pair, a
  tie), so the language leaves no choice of result. The sequence is not ascending, whether
  \<open>NaN\<close> is to come last, as the specification has it, or is compared as the language
  compares it.
\<close>

theorem category_sorted_nan_counterexample:
  "groupByCategory [''conference_x_A.jpg'', ''conference_01_B.jpg'']
     = Inr [(''conference'',
             [\<lparr>filename = ''conference_x_A.jpg'', category = ''conference'',
                order = NaN, description = ''A''\<rparr>,
              \<lparr>filename = ''conference_01_B.jpg'', category = ''conference'',
                order = Num 1, description = ''B''\<rparr>]),
            (''activity'', []), (''lablife'', []), (''campus'', [])]
   \<and> \<not> ascending_by_order
          [\<lparr>filename = ''conference_x_A.jpg'', category = ''conference'',
             order = NaN, description = ''A''\<rparr>,
           \<lparr>filename = ''conference_01_B.jpg'', category = ''conference'',
             order = Num 1, description = ''B''\<rparr>]"
proof -
  have "groupByCategory [''conference_x_A.jpg'', ''conference_01_B.jpg'']
     = Inr [(''conference'',
             [\<lparr>filename = ''conference_x_A.jpg'', category = ''conference'',
                order = NaN, description = ''A''\<rparr>,
              \<lparr>filename = ''conference_01_B.jpg'', category = ''conference'',
                order = Num 1, description = ''B''\<rparr>]),
            (''activity'', []), (''lablife'', []), (''campus'', [])]"
    by code_simp
  then show ?thesis by (simp add: ascending_by_order_def)
qed

subsection \<open>One record per accepted filename\<close>

lemma sum_indicator:
  "distinct ks \<Longrightarrow> (\<Sum>k\<leftarrow>ks. if a = k then 1 else 0) = (if a \<in> set ks then 1 else (0::nat))"
  by (induction ks) auto

lemma partition_lengths:
  "distinct ks \<Longrightarrow> \<forall>x \<in> set xs. f x \<in> set ks \<Longrightarrow>
   (\<Sum>k\<leftarrow>ks. length (filter (\<lambda>x. f x = k) xs)) = length xs"
proof (induction xs)
  case Nil
  show ?case by simp
next
  case (Cons x xs)
  have "(\<Sum>k\<leftarrow>ks. length (filter (\<lambda>y. f y = k) (x # xs)))
          = (\<Sum>k\<leftarrow>ks. (if f x = k then 1 else 0) + length (filter (\<lambda>y. f y = k) xs))"
    by (rule arg_cong [where f = sum_list]) auto
  also have "\<dots> = (\<Sum>k\<leftarrow>ks. if f x = k then 1 else 0)
                    + (\<Sum>k\<leftarrow>ks. length (filter (\<lambda>y. f y = k) xs))"
    by (rule sum_list_addf)
  also have "\<dots> = Suc (length xs)"
    using Cons by (simp add: sum_indicator)
  finally show ?case by simp
qed

text \<open>
  When \<^const>\<open>groupByCategory\<close> returns a grouping, the buckets hold as many records as
  there are accepted filenames, and every accepted record is in the bucket of its
  category and in no other.
\<close>

lemma buckets_count:
  assumes "groupByCategory images = Inr g"
  shows "(\<Sum>b\<leftarrow>g. length (snd b)) = length (accepted images)"
proof -
  have ok: "\<forall>it \<in> set (accepted images). category it \<in> set CATEGORIES_keys"
    using assms groupByCategory_Inl [of images TypeError] by auto
  have d: "distinct CATEGORIES_keys" by (simp add: CATEGORIES_keys_def)
  have "(\<Sum>b\<leftarrow>g. length (snd b))
          = (\<Sum>cat\<leftarrow>CATEGORIES_keys. length (filter (\<lambda>it. category it = cat) (accepted images)))"
    by (subst groupByCategory_Inr [OF assms])
       (simp add: comp_def length_js_sort of_category_def)
  also have "\<dots> = length (accepted images)"
    by (rule partition_lengths [OF d ok])
  finally show ?thesis .
qed

lemma buckets_membership:
  assumes "groupByCategory images = Inr g" and "(cat, items) \<in> set g"
  shows "set items = {it \<in> set (accepted images). category it = cat}"
proof -
  from groupByCategory_Inr [OF assms(1)] assms(2)
  have "items = js_sort compareOrder (of_category cat (accepted images))" by auto
  then show ?thesis by (auto simp: set_js_sort of_category_def)
qed

text \<open>
  Claim C10. The claim rests on the category of an accepted record being a key of the
  enumeration. The record of \<open>constructor_01_Poster.jpg\<close> has the category
  \<open>constructor\<close>; \<^verbatim>\<open>grouped['constructor']\<close> is the inherited constructor function,
  which has no \<^verbatim>\<open>push\<close>, and \<^const>\<open>groupByCategory\<close> throws: the list below has two
  accepted filenames and yields no grouping at all.
\<close>

theorem constructor_breaks_grouping:
  "accepted [''campus_01_Old Well.jpg'', ''constructor_01_Poster.jpg'']
     = [\<lparr>filename = ''campus_01_Old Well.jpg'', category = ''campus'',
          order = Num 1, description = ''Old Well''\<rparr>,
        \<lparr>filename = ''constructor_01_Poster.jpg'', category = ''constructor'',
          order = Num 1, description = ''Poster''\<rparr>]
   \<and> groupByCategory [''campus_01_Old Well.jpg'', ''constructor_01_Poster.jpg'']
       = Inl TypeError"
  by code_simp

subsection \<open>Which categories pass the guard\<close>

text \<open>
  The category of an accepted record is a lower-cased first segment: it has no underscore
  and no upper-case letter \<open>A..Z\<close>. Among the inherited property names only
  \<open>constructor\<close> is of that kind, so it is the one category outside the enumeration
  that \<^const>\<open>parseFilename\<close> can return.
\<close>

lemma of_char_toLowerCase_char:
  "(of_char (toLowerCase_char c) :: nat) =
     (if (65 \<le> (of_char c :: nat) \<and> (of_char c :: nat) \<le> 90)
         \<or> (192 \<le> (of_char c :: nat) \<and> (of_char c :: nat) \<le> 222 \<and> (of_char c :: nat) \<noteq> 215)
      then of_char c + 32 else of_char c)"
  by (auto simp: toLowerCase_char_def Let_def)

lemma toLowerCase_char_not_upper:
  "\<not> (65 \<le> (of_char (toLowerCase_char c) :: nat) \<and> (of_char (toLowerCase_char c) :: nat) \<le> 90)"
  by (auto simp: of_char_toLowerCase_char)

lemma toLowerCase_char_underscore:
  assumes "toLowerCase_char c = CHR ''_''"
  shows "c = CHR ''_''"
proof -
  have "(of_char (toLowerCase_char c) :: nat) = 95" using assms by simp
  then have "(of_char c :: nat) = 95"
    by (auto simp: of_char_toLowerCase_char split: if_splits)
  then have "(of_char c :: nat) = of_char CHR ''_''" by simp
  then show ?thesis by (simp only: of_char_eq_iff)
qed

lemma split_us_head_no_underscore:
  "split_us s = p # ps \<Longrightarrow> CHR ''_'' \<notin> set p"
proof (induction s arbitrary: p ps)
  case Nil
  then show ?case by simp
next
  case (Cons c cs)
  obtain q qs where sp: "split_us cs = q # qs"
    using split_us_nonempty [of cs] by (cases "split_us cs") auto
  from Cons.IH [OF sp] have "CHR ''_'' \<notin> set q" .
  with Cons.prems sp show ?case by (auto split: if_splits)
qed

lemma inherited_key_letter:
  assumes "key \<in> set Object_prototype_keys"
  shows "key = ''constructor'' \<or> CHR ''_'' \<in> set key \<or> CHR ''O'' \<in> set key
         \<or> CHR ''P'' \<in> set key \<or> CHR ''I'' \<in> set key \<or> CHR ''L'' \<in> set key
         \<or> CHR ''S'' \<in> set key"
proof -
  from assms have
    "key \<in> {''constructor'', ''hasOwnProperty'', ''isPrototypeOf'', ''propertyIsEnumerable'',
             ''toLocaleString'', ''toString'', ''valueOf'', ''__proto__'',
             ''__defineGetter__'', ''__defineSetter__'', ''__lookupGetter__'',
             ''__lookupSetter__''}"
    by (simp add: Object_prototype_keys_def)
  then show ?thesis
    by (elim insertE emptyE) simp_all
qed

lemma inherited_lower_key:
  assumes "key \<in> set Object_prototype_keys"
    and "CHR ''_'' \<notin> set key"
    and "\<forall>c \<in> set key. \<not> (65 \<le> (of_char c :: nat) \<and> (of_char c :: nat) \<le> 90)"
  shows "key = ''constructor''"
proof -
  have up: "CHR ''O'' \<notin> set key" "CHR ''P'' \<notin> set key" "CHR ''I'' \<notin> set key"
    "CHR ''L'' \<notin> set key" "CHR ''S'' \<notin> set key"
    using assms(3) by fastforce+
  with inherited_key_letter [OF assms(1)] assms(2) show ?thesis by blast
qed

lemma toLowerCase_no_underscore:
  assumes "CHR ''_'' \<notin> set p"
  shows "CHR ''_'' \<notin> set (toLowerCase p)"
proof
  assume "CHR ''_'' \<in> set (toLowerCase p)"
  then obtain c where c: "c \<in> set p" and l: "toLowerCase_char c = CHR ''_''"
    by (auto simp: toLowerCase_def)
  from toLowerCase_char_underscore [OF l] c assms show False by simp
qed

lemma accepted_category:
  assumes "parseFilename fname = Inr it"
  shows "category it \<in> set CATEGORIES_keys \<or> category it = ''constructor''"
proof -
  let ?parts = "split_us (strip_ext fname)"
  from assms have len: "\<not> length ?parts < 3"
    and tr: "CATEGORIES_truthy (toLowerCase (?parts ! 0))"
    and cat: "category it = toLowerCase (?parts ! 0)"
    by (auto simp: parseFilename_def Let_def split: if_splits)
  obtain p ps where sp: "?parts = p # ps"
    using split_us_nonempty [of "strip_ext fname"] by (cases ?parts) auto
  have nus: "CHR ''_'' \<notin> set p" by (rule split_us_head_no_underscore [OF sp])
  have c: "category it = toLowerCase p" using cat sp by simp
  have a: "CHR ''_'' \<notin> set (toLowerCase p)"
    by (rule toLowerCase_no_underscore [OF nus])
  have b: "\<forall>c \<in> set (toLowerCase p). \<not> (65 \<le> (of_char c :: nat) \<and> (of_char c :: nat) \<le> 90)"
    using toLowerCase_char_not_upper by (auto simp: toLowerCase_def)
  from tr sp have "toLowerCase p \<in> set CATEGORIES_keys \<or> toLowerCase p \<in> set Object_prototype_keys"
    by (simp add: CATEGORIES_truthy_def)
  then show ?thesis
    using inherited_lower_key [OF _ a b] c by auto
qed

section \<open>Properties of the timeline\<close>

subsection \<open>The date of a description\<close>

lemma date_pattern_first_group:
  assumes "date_pattern s = Some (m1, m2, m3)"
  shows "m1 = take 3 s \<and> length m1 = 3"
proof -
  define a where "a = take 3 s"
  define r1 where "r1 = drop 3 s"
  define r2 where "r2 = dropWhile is_space r1"
  define b where "b = take 4 r2"
  define r4 where "r4 = dropWhile is_space (drop 4 r2)"
  have dp: "date_pattern s =
     (if length a = 3 \<and> list_all is_letter a \<and> r2 \<noteq> r1 \<and> length b = 4 \<and> list_all is_digit b
      then (case r4 of
                 [] \<Rightarrow> None
               | c # r5 \<Rightarrow>
                   if c \<noteq> CHR ''-'' then None
                   else
                     let ws = takeWhile is_space r5; rest = dropWhile is_space r5
                     in if rest \<noteq> []
                        then (if list_all (\<lambda>x. \<not> is_line_terminator x) rest
                              then Some (a, b, rest) else None)
                        else if ws \<noteq> [] \<and> \<not> is_line_terminator (last ws)
                             then Some (a, b, [last ws]) else None)
      else None)"
    by (simp only: date_pattern_def Let_def a_def r1_def r2_def b_def r4_def)
  from assms show ?thesis
    unfolding dp a_def [symmetric]
    by (auto simp: Let_def split: if_split_asm list.split_asm)
qed

lemma month_key_not_inherited:
  assumes "date_pattern s = Some (m1, m2, m3)"
  shows "toLowerCase m1 \<notin> set Object_prototype_keys"
proof -
  from date_pattern_first_group [OF assms] have "length m1 = 3" by blast
  then have "length (toLowerCase m1) = 3" by (simp add: toLowerCase_def)
  then show ?thesis by (auto simp: Object_prototype_keys_def)
qed

lemma month_lt_12: "map_of MONTH_MAP s = Some mo \<Longrightarrow> mo < 12"
proof -
  assume "map_of MONTH_MAP s = Some mo"
  then have "(s, mo) \<in> set MONTH_MAP" by (rule map_of_SomeD)
  then have "mo \<in> snd ` set MONTH_MAP" by force
  also have "snd ` set MONTH_MAP = {0, 1, 2, 3, 4, 5, 6, 7, 8, 9, 10, 11}"
    by (simp add: MONTH_MAP_def)
  finally show "mo < 12" by auto
qed

lemma parseDate_month: "parseDateFromDescription s = Some d \<Longrightarrow> month d < 12"
  by (auto simp: parseDateFromDescription_def Let_def split: option.splits dest!: month_lt_12)

text \<open>
  Claim C4. The three examples of the date heuristic (the second does not match the
  pattern, for want of a month; the third matches it); the month table, twelve entries from
  \<open>jan\<close> to \<open>dec\<close> with the indices 0 to 11; and the explicit check: a description that
  matches the pattern with a first group that is no key of the table has no date.
  The record of the first example also carries the month's name.
\<close>

theorem date_heuristic:
  "parseDateFromDescription ''Aug 2024 - First Lab Lunch''
     = Some \<lparr>year = Num 2024, month = 7, monthName = ''Aug'', event = ''First Lab Lunch''\<rparr>
   \<and> date_pattern ''2024 Lab Lunch'' = None
   \<and> parseDateFromDescription ''2024 Lab Lunch'' = None
   \<and> parseDateFromDescription ''Xyz 2024 - Event'' = None
   \<and> MONTH_MAP = zip [''jan'', ''feb'', ''mar'', ''apr'', ''may'', ''jun'',
                       ''jul'', ''aug'', ''sep'', ''oct'', ''nov'', ''dec''] [0, 1, 2, 3, 4, 5, 6, 7, 8, 9, 10, 11]
   \<and> (date_pattern descr = Some (m1, m2, m3) \<longrightarrow> toLowerCase m1 \<notin> fst ` set MONTH_MAP
        \<longrightarrow> parseDateFromDescription descr = None)"
proof (intro conjI impI)
  show "parseDateFromDescription ''Aug 2024 - First Lab Lunch''
     = Some \<lparr>year = Num 2024, month = 7, monthName = ''Aug'', event = ''First Lab Lunch''\<rparr>"
    by code_simp
  show "date_pattern ''2024 Lab Lunch'' = None" by code_simp
  show "parseDateFromDescription ''2024 Lab Lunch'' = None" by code_simp
  show "parseDateFromDescription ''Xyz 2024 - Event'' = None" by code_simp
  show "MONTH_MAP = zip [''jan'', ''feb'', ''mar'', ''apr'', ''may'', ''jun'',
                       ''jul'', ''aug'', ''sep'', ''oct'', ''nov'', ''dec''] [0, 1, 2, 3, 4, 5, 6, 7, 8, 9, 10, 11]"
    by (simp add: MONTH_MAP_def)
next
  assume m: "date_pattern descr = Some (m1, m2, m3)"
    and k: "toLowerCase m1 \<notin> fst ` set MONTH_MAP"
  from k have "map_of MONTH_MAP (toLowerCase m1) = None"
    by (simp add: map_of_eq_None_iff)
  with m show "parseDateFromDescription descr = None"
    by (simp add: parseDateFromDescription_def)
qed

text \<open>
  \<open>Xyz 2024 - Event\<close> matches the pattern, with the groups \<open>Xyz\<close>, \<open>2024\<close> and
  \<open>Event\<close>; \<open>xyz\<close> is no key of the table.
\<close>

theorem date_heuristic_witness:
  "date_pattern ''Xyz 2024 - Event'' = Some (''Xyz'', ''2024'', ''Event'')
   \<and> toLowerCase ''Xyz'' \<notin> fst ` set MONTH_MAP
   \<and> parseDateFromDescription ''Xyz 2024 - Event'' = None"
proof -
  have m: "date_pattern ''Xyz 2024 - Event'' = Some (''Xyz'', ''2024'', ''Event'')"
    by code_simp
  have k: "toLowerCase ''Xyz'' \<notin> fst ` set MONTH_MAP" by code_simp
  from date_heuristic [of "''Xyz 2024 - Event''" "''Xyz''" "''2024''" "''Event''"] m k
  show ?thesis by blast
qed

subsection \<open>The content of the timeline\<close>

lemma timeline_entries_empty: "timeline_entries Map.empty = {}"
  by (simp add: timeline_entries_def)

lemma timeline_entries_add:
  "timeline_entries (add_to_timeline g fname) = timeline_entries g \<union> dated fname"
proof (cases "parseFilename fname")
  case (Inl r)
  then show ?thesis by (simp add: add_to_timeline_def dated_def)
next
  case (Inr parsed)
  show ?thesis
  proof (cases "parseDateFromDescription (description parsed)")
    case None
    with Inr show ?thesis by (simp add: add_to_timeline_def dated_def)
  next
    case (Some d)
    define months where "months = (case g (year d) of None \<Rightarrow> Map.empty | Some m \<Rightarrow> m)"
    define bucket where "bucket = (case months (month d) of None \<Rightarrow> [] | Some b \<Rightarrow> b)"
    define e where "e = MediaItem.extend parsed \<lparr>dateInfo = d\<rparr>"
    have add: "add_to_timeline g fname = g(year d \<mapsto> months(month d \<mapsto> bucket @ [e]))"
      using Inr Some by (simp add: add_to_timeline_def months_def bucket_def e_def Let_def)
    have dt: "dated fname = {(year d, month d, e)}"
      using Inr Some by (simp add: dated_def e_def)
    show ?thesis
      unfolding add dt
      by (auto simp: timeline_entries_def months_def bucket_def split: if_splits option.splits)
  qed
qed

lemma timeline_entries_foldl:
  "timeline_entries (foldl add_to_timeline g images)
     = timeline_entries g \<union> (\<Union>fname \<in> set images. dated fname)"
  by (induction images arbitrary: g) (auto simp: timeline_entries_add)

text \<open>The timeline holds what the filenames of the list contribute, and nothing else.\<close>

lemma timeline_entries_groupByYearMonth:
  "timeline_entries (groupByYearMonth images) = (\<Union>fname \<in> set images. dated fname)"
  by (simp add: groupByYearMonth_def timeline_entries_foldl timeline_entries_empty)

lemma truncate_extend: "MediaItem.truncate (MediaItem.extend p m) = p"
  by (simp add: MediaItem.truncate_def MediaItem.extend_def)

lemma description_extend: "description (MediaItem.extend p m) = description p"
  by (simp add: MediaItem.extend_def)

lemma dated_entry:
  assumes "(y, m, e) \<in> dated fname"
  shows "parseFilename fname = Inr (MediaItem.truncate e)
         \<and> parseDateFromDescription (description e) = Some (dateInfo e)
         \<and> year (dateInfo e) = y \<and> month (dateInfo e) = m \<and> m < 12"
proof -
  from assms obtain parsed d where
    p: "parseFilename fname = Inr parsed" and
    d: "parseDateFromDescription (description parsed) = Some d" and
    e: "e = MediaItem.extend parsed \<lparr>dateInfo = d\<rparr>" and
    ym: "y = year d" "m = month d"
    by (auto simp: dated_def split: sum.splits option.splits)
  have "dateInfo e = d" by (simp add: e MediaItem.extend_def)
  with p d ym show ?thesis
    by (simp add: e truncate_extend description_extend parseDate_month)
qed

text \<open>
  A record that the parser accepts and whose description yields no date is in no bucket
  of the timeline: every entry of the timeline has a date, and stands under the year and
  the month (0 to 11) of that date, so there is no bucket for the undated. The same
  record is in the sequence of its category in the category view, on a list whose
  accepted records carry categories of the enumeration.
\<close>

lemma undated_item_asymmetric:
  assumes "fname \<in> set images" and "parseFilename fname = Inr item"
    and "parseDateFromDescription (description item) = None"
  shows "(\<forall>y m e. (y, m, e) \<in> timeline_entries (groupByYearMonth images) \<longrightarrow>
            MediaItem.truncate e \<noteq> item
            \<and> parseDateFromDescription (description e) = Some (dateInfo e)
            \<and> year (dateInfo e) = y \<and> month (dateInfo e) = m \<and> m < 12)
         \<and> ((\<forall>it \<in> set (accepted images). category it \<in> set CATEGORIES_keys) \<longrightarrow>
              (\<exists>g items. groupByCategory images = Inr g
                 \<and> map_of g (category item) = Some items \<and> item \<in> set items))"
proof (intro conjI allI impI)
  fix y m e
  assume "(y, m, e) \<in> timeline_entries (groupByYearMonth images)"
  then obtain f where "f \<in> set images" and d: "(y, m, e) \<in> dated f"
    by (auto simp: timeline_entries_groupByYearMonth)
  note de = dated_entry [OF d]
  from de show "parseDateFromDescription (description e) = Some (dateInfo e)" by simp
  from de show "year (dateInfo e) = y" by simp
  from de show "month (dateInfo e) = m" by simp
  from de show "m < 12" by simp
  show "MediaItem.truncate e \<noteq> item"
  proof
    assume "MediaItem.truncate e = item"
    then have "description e = description item"
      by (auto simp: MediaItem.truncate_def)
    with de assms(3) show False by simp
  qed
next
  assume ok: "\<forall>it \<in> set (accepted images). category it \<in> set CATEGORIES_keys"
  have acc: "item \<in> set (accepted images)"
    using assms(1,2) by (auto simp: set_accepted)
  with ok have cat: "category item \<in> set CATEGORIES_keys" by blast
  let ?g = "map (\<lambda>cat. (cat, js_sort compareOrder (of_category cat (accepted images))))
                CATEGORIES_keys"
  have r: "groupByCategory images = Inr ?g" by (rule groupByCategory_returns [OF ok])
  have b: "map_of ?g (category item)
             = Some (js_sort compareOrder (of_category (category item) (accepted images)))"
    by (rule bucket_of_category [OF cat])
  have "item \<in> set (js_sort compareOrder (of_category (category item) (accepted images)))"
    using acc by (simp add: set_js_sort of_category_def)
  with r b show "\<exists>g items. groupByCategory images = Inr g
                 \<and> map_of g (category item) = Some items \<and> item \<in> set items"
    by blast
qed

text \<open>
  Claim C5. An accepted record without a date should be left out of the timeline and still
  be in the category view. \<open>campus_02_Wilson Library.jpg\<close> is accepted and has no date
  in its description. In the list below it stands beside \<open>constructor_01_Poster.jpg\<close>,
  which is accepted with the category \<open>constructor\<close>: \<^const>\<open>groupByCategory\<close> throws
  on that record, and the undated campus record is in no category view, there being none.
\<close>

theorem undated_item_lost_with_constructor:
  "parseFilename ''campus_02_Wilson Library.jpg''
     = Inr \<lparr>filename = ''campus_02_Wilson Library.jpg'', category = ''campus'',
            order = Num 2, description = ''Wilson Library''\<rparr>
   \<and> parseDateFromDescription ''Wilson Library'' = None
   \<and> groupByCategory [''campus_02_Wilson Library.jpg'', ''constructor_01_Poster.jpg'']
       = Inl TypeError"
  by code_simp

section \<open>When the category view is not produced\<close>

text \<open>
  \<^const>\<open>groupByCategory\<close> throws exactly when the list holds a filename that the parser
  accepts with the category \<open>constructor\<close>; on every other list it returns a grouping.
\<close>

lemma groupByCategory_throws_iff:
  "groupByCategory images = Inl TypeError \<longleftrightarrow>
     (\<exists>fname \<in> set images. \<exists>it. parseFilename fname = Inr it \<and> category it = ''constructor'')"
proof -
  have nk: "''constructor'' \<notin> set CATEGORIES_keys" by (simp add: CATEGORIES_keys_def)
  have "groupByCategory images = Inl TypeError \<longleftrightarrow>
          (\<exists>it \<in> set (accepted images). category it \<notin> set CATEGORIES_keys)"
    by (rule groupByCategory_Inl)
  also have "\<dots> \<longleftrightarrow> (\<exists>it \<in> set (accepted images). category it = ''constructor'')"
    using nk accepted_category by (auto simp: set_accepted)
  finally show ?thesis by (auto simp: set_accepted)
qed

end
